theory Spec2Isabelle
  imports Complex_Main "HOL-Library.Word"
begin

section \<open>The UART frame decoder of the desk-height sensor\<close>

text \<open>
  The component \<^verbatim>\<open>UartUpliftSensor\<close> of \<^verbatim>\<open>esphome/uplift_uart.h\<close> keeps its whole
  decoder state in function-local \<^verbatim>\<open>static\<close> variables. They are gathered here in one
  record that every operation takes and returns.

  \<^item> \<open>lastch\<close> is the \<^verbatim>\<open>static int lastch\<close> of \<^verbatim>\<open>startcode\<close>;
  \<^item> \<open>mode\<close>, \<open>first_byte\<close>, \<open>raw_data\<close> and \<open>previous_raw_data\<close> are the statics of
    \<^verbatim>\<open>loop\<close>; the two \<^verbatim>\<open>unsigned short\<close> fields are 16-bit words.

  The static \<^verbatim>\<open>buffer\<close> of \<^verbatim>\<open>loop\<close> is never read nor written and has no field.
\<close>

type_synonym byte = "8 word"

record decoder =
  lastch :: int
  mode :: bool
  first_byte :: bool
  raw_data :: "16 word"
  previous_raw_data :: "16 word"

text \<open>The values the static initialisers give.\<close>

definition initial :: decoder where
  "initial = \<lparr>lastch = 0, mode = False, first_byte = True, raw_data = 0,
      previous_raw_data = 0\<rparr>"

text \<open>
  \<^verbatim>\<open>bool startcode(int readch)\<close>: the result together with the updated static.
\<close>

definition startcode :: "int \<Rightarrow> decoder \<Rightarrow> bool \<times> decoder" where
  "startcode readch d =
     (if readch = 1 \<and> lastch d = 1 then (True, d\<lparr>lastch := 0\<rparr>)
      else (False, d\<lparr>lastch := readch\<rparr>))"

text \<open>
  The serial device is the list of bytes that \<^verbatim>\<open>available()\<close> reports: \<^verbatim>\<open>available()\<close>
  is \<open>rx \<noteq> []\<close> and \<^verbatim>\<open>read()\<close> removes the head and returns it as an \<^verbatim>\<open>int\<close> in
  \<open>0..255\<close> (\<open>uint b\<close>). The sink is the list of arguments of \<^verbatim>\<open>publish_state\<close>, oldest
  first. The quotient \<^verbatim>\<open>raw_data / 10.0\<close> is taken in the reals: the rounding of the
  floating-point division is not part of the model.
\<close>

text \<open>Body of the first \<^verbatim>\<open>while\<close> of \<^verbatim>\<open>loop\<close>, for the byte \<open>b\<close> just read.\<close>

definition seek_body :: "byte \<Rightarrow> decoder \<Rightarrow> decoder" where
  "seek_body b d =
     (let (r, d1) = startcode (uint b) d
      in d1\<lparr>mode := r, first_byte := True\<rparr>)"

text \<open>
  Body of the second \<^verbatim>\<open>while\<close>, for the byte \<open>b\<close> just read: the new state and the
  calls of \<^verbatim>\<open>publish_state\<close> made. The products and sums are computed in \<^verbatim>\<open>int\<close> and
  stored into the \<^verbatim>\<open>unsigned short\<close>, which truncates them to 16 bits.
\<close>

definition frame_body :: "byte \<Rightarrow> decoder \<Rightarrow> decoder \<times> real list" where
  "frame_body b d =
     (if first_byte d then
        (let d1 = d\<lparr>raw_data := word_of_int (256 * uint b), first_byte := False\<rparr>
         in (if uint (raw_data d1) > 256 then (d1\<lparr>mode := False\<rparr>, []) else (d1, [])))
      else
        (let d1 = d\<lparr>raw_data := word_of_int (uint (raw_data d) + uint b), mode := False\<rparr>
         in (if previous_raw_data d1 \<noteq> raw_data d1
             then (d1\<lparr>previous_raw_data := raw_data d1\<rparr>,
                   [real_of_int (uint (raw_data d1)) / 10])
             else (d1, []))))"

text \<open>\<^verbatim>\<open>while (mode == false && available())\<close>: the state and the bytes left.\<close>

fun seek_loop :: "decoder \<Rightarrow> byte list \<Rightarrow> decoder \<times> byte list" where
  "seek_loop d [] = (d, [])"
| "seek_loop d (b # rx) =
     (if mode d = False then seek_loop (seek_body b d) rx else (d, b # rx))"

text \<open>
  \<^verbatim>\<open>while (mode == true && available())\<close>: the state, the bytes left and the values
  published.
\<close>

fun frame_loop :: "decoder \<Rightarrow> byte list \<Rightarrow> decoder \<times> byte list \<times> real list" where
  "frame_loop d [] = (d, [], [])"
| "frame_loop d (b # rx) =
     (if mode d = True then
        (let (d1, out1) = frame_body b d;
             (d2, rx2, out2) = frame_loop d1 rx
         in (d2, rx2, out1 @ out2))
      else (d, b # rx, []))"

text \<open>\<^verbatim>\<open>void loop()\<close>: one poll of the component.\<close>

definition loop :: "decoder \<Rightarrow> byte list \<Rightarrow> decoder \<times> byte list \<times> real list" where
  "loop d rx =
     (let (d1, rx1) = seek_loop d rx
      in frame_loop d1 rx1)"

text \<open>
  The host calls \<^verbatim>\<open>loop()\<close> again and again. \<open>drain\<close> is that scheduler for a
  receive queue that already holds the whole byte sequence: it polls until the queue is
  empty and collects the published values. Every poll on a non-empty queue reads at least
  one byte, which is the termination argument.
\<close>

function drain :: "decoder \<Rightarrow> byte list \<Rightarrow> decoder \<times> real list" where
  "drain d [] = (d, [])"
| "drain d (b # rx) =
     (let (d1, rx1, out1) = loop d (b # rx);
          (d2, out2) = drain d1 rx1
      in (d2, out1 @ out2))"
  by pat_completeness auto
termination
proof (relation "measure (\<lambda>(d, rx). length rx)")
  show "wf (measure (\<lambda>(d :: decoder, rx :: byte list). length rx))"
    by simp
next
  fix d :: decoder and b :: byte and rx :: "byte list"
  fix x :: "decoder \<times> byte list \<times> real list" and d1 :: decoder
  fix y :: "byte list \<times> real list" and rx1 :: "byte list" and out1 :: "real list"
  assume x: "x = loop d (b # rx)" and xy: "(d1, y) = x" and y: "(rx1, out1) = y"
  have seek_le: "length (snd (seek_loop e xs)) \<le> length xs" for e xs
    by (induction xs arbitrary: e) (simp_all add: le_SucI)
  have frame_le: "length (fst (snd (frame_loop e xs))) \<le> length xs" for e xs
    by (induction xs arbitrary: e) (simp_all add: split_beta Let_def le_SucI)
  have split: "loop d (b # rx) = (d1, rx1, out1)"
    using x xy y by simp
  have "length rx1 \<le> length rx"
  proof (cases "mode d")
    case True
    then have "rx1 = fst (snd (frame_loop (fst (frame_body b d)) rx))"
      using split by (simp add: loop_def split_beta Let_def)
    then show ?thesis
      using frame_le by simp
  next
    case False
    then have "rx1 = fst (snd (frame_loop (fst (seek_loop (seek_body b d) rx))
        (snd (seek_loop (seek_body b d) rx))))"
      using split by (simp add: loop_def split_beta Let_def)
    then show ?thesis
      using frame_le [of "fst (seek_loop (seek_body b d) rx)" "snd (seek_loop (seek_body b d) rx)"]
        seek_le [of "seek_body b d" rx] by simp
  qed
  then show "((d1, rx1), d, b # rx) \<in> measure (\<lambda>(d, rx). length rx)"
    by simp
qed

subsection \<open>The decoder seen one byte at a time\<close>

text \<open>
  Both loops of \<^verbatim>\<open>loop\<close> test \<open>mode\<close> before every read, so each byte is handled by
  the body of the loop that \<open>mode\<close> selects at that moment. \<open>step\<close> is that choice and
  \<open>feed\<close> runs it over a byte sequence; \<open>drain_feed\<close> below shows that polling computes
  exactly this, so the proofs about whole streams are done on \<open>feed\<close>.
\<close>

definition step :: "byte \<Rightarrow> decoder \<Rightarrow> decoder \<times> real list" where
  "step b d = (if mode d = False then (seek_body b d, []) else frame_body b d)"

fun feed :: "decoder \<Rightarrow> byte list \<Rightarrow> decoder \<times> real list" where
  "feed d [] = (d, [])"
| "feed d (b # bs) =
     (let (d1, out1) = step b d;
          (d2, out2) = feed d1 bs
      in (d2, out1 @ out2))"

subsection \<open>Frames on the wire\<close>

text \<open>
  A frame is given by its payload, the pair of high and low byte. On the wire it is the
  two marker bytes followed by the payload; it is well formed when the high byte is at
  most 1; its value is the 16-bit number the payload spells.
\<close>

definition frame_bytes :: "byte \<times> byte \<Rightarrow> byte list" where
  "frame_bytes f = [1, 1, fst f, snd f]"

definition frame_value :: "byte \<times> byte \<Rightarrow> int" where
  "frame_value f = 256 * uint (fst f) + uint (snd f)"

definition well_formed :: "byte \<times> byte \<Rightarrow> bool" where
  "well_formed f = (fst f \<le> 1)"

text \<open>
  What the specification asks of a sequence of frame values: one measurement for every
  value that differs from the value remembered last, where every frame's value is
  remembered. \<open>prev\<close> is the value remembered before the first frame.
\<close>

fun emitted :: "int \<Rightarrow> int list \<Rightarrow> real list" where
  "emitted prev [] = []"
| "emitted prev (v # vs) =
     (if v \<noteq> prev then [real_of_int v / 10] else []) @ emitted v vs"

text \<open>Whether two neighbouring bytes of a sequence are both 1.\<close>

fun has_marker :: "byte list \<Rightarrow> bool" where
  "has_marker (a # b # bs) = ((a = 1 \<and> b = 1) \<or> has_marker (b # bs))"
| "has_marker _ = False"

section \<open>Auxiliary facts\<close>

subsection \<open>Polling is feeding byte by byte\<close>

lemma seek_loop_feed: "seek_loop d rx = (d1, rx1) \<Longrightarrow> feed d rx = feed d1 rx1"
  by (induction rx arbitrary: d) (auto simp: step_def split: if_splits)

lemma frame_loop_feed:
  "frame_loop d rx = (d2, rx2, out) \<Longrightarrow>
     feed d rx = (fst (feed d2 rx2), out @ snd (feed d2 rx2))"
proof (induction rx arbitrary: d d2 rx2 out)
  case Nil
  then show ?case by simp
next
  case (Cons b rx)
  show ?case
  proof (cases "mode d")
    case False
    with Cons.prems show ?thesis by simp
  next
    case True
    obtain d1 out1 where fb: "frame_body b d = (d1, out1)"
      by (cases "frame_body b d")
    obtain e rest o2 where fl: "frame_loop d1 rx = (e, rest, o2)"
      by (cases "frame_loop d1 rx") auto
    from Cons.prems True fb fl have eq: "d2 = e" "rx2 = rest" "out = out1 @ o2"
      by simp_all
    from Cons.IH [OF fl] have "feed d1 rx = (fst (feed e rest), o2 @ snd (feed e rest))" .
    with True fb eq show ?thesis
      by (simp add: step_def)
  qed
qed

lemma loop_feed:
  "loop d rx = (d2, rx2, out) \<Longrightarrow>
     feed d rx = (fst (feed d2 rx2), out @ snd (feed d2 rx2))"
proof -
  assume l: "loop d rx = (d2, rx2, out)"
  obtain d1 rx1 where s: "seek_loop d rx = (d1, rx1)"
    by (cases "seek_loop d rx")
  with l have "frame_loop d1 rx1 = (d2, rx2, out)"
    by (simp add: loop_def)
  from frame_loop_feed [OF this] seek_loop_feed [OF s] show ?thesis
    by simp
qed

lemma drain_feed: "drain d rx = feed d rx"
proof (induction d rx rule: drain.induct)
  case (1 d)
  show ?case by simp
next
  case (2 d b rx)
  obtain d1 rx1 out1 where l: "loop d (b # rx) = (d1, rx1, out1)"
    by (cases "loop d (b # rx)") auto
  have ih: "drain d1 rx1 = feed d1 rx1"
    using "2.IH" [of "(d1, rx1, out1)" d1 "(rx1, out1)" rx1 out1] l by simp
  have "drain d (b # rx) = (fst (drain d1 rx1), out1 @ snd (drain d1 rx1))"
    using l by (simp add: split_beta)
  also have "\<dots> = feed d (b # rx)"
    using loop_feed [OF l] ih by simp
  finally show ?case .
qed

subsection \<open>The 16-bit arithmetic of the payload\<close>

lemma uint_byte_bounds: "0 \<le> uint (b :: byte)" "uint (b :: byte) < 256"
  using uint_lt2p [of b] by simp_all

lemma uint_ucast_byte: "uint (ucast (b :: byte) :: 16 word) = uint b"
  by (simp add: uint_up_ucast is_up)

lemma uint_high: "uint (256 * ucast (b :: byte) :: 16 word) = 256 * uint b"
proof -
  have "0 \<le> 256 * uint b" "256 * uint b < 65536"
    using uint_byte_bounds [of b] by simp_all
  then show ?thesis
    by (simp add: uint_word_ariths uint_ucast_byte)
qed

lemma uint_low:
  "uint (r :: 16 word) \<le> 256 \<Longrightarrow> uint (r + ucast (b :: byte)) = uint r + uint b"
proof -
  assume "uint r \<le> 256"
  then have "0 \<le> uint r + uint b" "uint r + uint b < 65536"
    using uint_byte_bounds [of b] by simp_all
  then show ?thesis
    by (simp add: uint_word_ariths uint_ucast_byte)
qed

lemma uint_payload:
  "uint (h :: byte) \<le> 1 \<Longrightarrow>
     uint (256 * ucast h + ucast (l :: byte) :: 16 word) = 256 * uint h + uint l"
  using uint_low [of "256 * ucast h" l] by (simp add: uint_high)

lemma byte_le_1: "(h :: byte) \<le> 1 \<longleftrightarrow> uint h \<le> 1"
  by (simp add: word_le_def)

lemma byte_gt_1: "(1 :: byte) < h \<longleftrightarrow> 1 < uint h"
  by (simp add: word_less_def)

lemma byte_eq_1: "(b :: byte) = 1 \<longleftrightarrow> uint b = 1"
  by (metis uint_1 word_uint_eq_iff)

lemma frame_body_high_ok:
  "first_byte d \<Longrightarrow> h \<le> 1 \<Longrightarrow>
     frame_body h d = (d\<lparr>raw_data := 256 * ucast h, first_byte := False\<rparr>, [])"
  by (simp add: frame_body_def Let_def uint_high byte_le_1)

lemma frame_body_high_bad:
  "first_byte d \<Longrightarrow> 1 < h \<Longrightarrow>
     frame_body h d =
       (d\<lparr>raw_data := 256 * ucast h, first_byte := False, mode := False\<rparr>, [])"
  by (simp add: frame_body_def Let_def uint_high byte_gt_1)

lemma frame_body_low:
  "\<not> first_byte d \<Longrightarrow>
     frame_body l d =
       (d\<lparr>raw_data := raw_data d + ucast l, mode := False,
          previous_raw_data := raw_data d + ucast l\<rparr>,
        if previous_raw_data d \<noteq> raw_data d + ucast l
        then [real_of_int (uint (raw_data d + ucast l)) / 10] else [])"
  by (simp add: frame_body_def Let_def)

subsection \<open>Markers and frames under \<open>feed\<close>\<close>

lemma step_seek_marker:
  "mode d = False \<Longrightarrow> lastch d = 1 \<Longrightarrow>
     step 1 d = (d\<lparr>lastch := 0, mode := True, first_byte := True\<rparr>, [])"
  by (simp add: step_def seek_body_def startcode_def)

lemma step_seek_other:
  "mode d = False \<Longrightarrow> b \<noteq> 1 \<or> lastch d \<noteq> 1 \<Longrightarrow>
     step b d = (d\<lparr>lastch := uint b, mode := False, first_byte := True\<rparr>, [])"
  by (auto simp: step_def seek_body_def startcode_def byte_eq_1)

lemma feed_Cons:
  "step b d = (d1, out1) \<Longrightarrow> feed d (b # bs) = (fst (feed d1 bs), out1 @ snd (feed d1 bs))"
  by (simp add: split_beta)

lemma feed_marker:
  assumes "mode d = False" and "lastch d \<noteq> 1"
  shows "feed d (1 # 1 # bs) = feed (d\<lparr>lastch := 0, mode := True, first_byte := True\<rparr>) bs"
proof -
  define d1 where "d1 = d\<lparr>lastch := 1, mode := False, first_byte := True\<rparr>"
  define d2 where "d2 = d\<lparr>lastch := 0, mode := True, first_byte := True\<rparr>"
  have s1: "step 1 d = (d1, [])"
    using assms step_seek_other [of d 1] by (simp add: d1_def)
  have s2: "step 1 d1 = (d2, [])"
    using step_seek_marker [of d1] by (simp add: d1_def d2_def)
  show ?thesis
    using feed_Cons [OF s1, of "1 # bs"] feed_Cons [OF s2, of bs] by (simp add: d2_def)
qed

lemma feed_payload:
  assumes "mode d" and "first_byte d" and "h \<le> 1"
  shows "feed d (h # l # bs) =
     (fst (feed (d\<lparr>raw_data := 256 * ucast h + ucast l, first_byte := False, mode := False,
                   previous_raw_data := 256 * ucast h + ucast l\<rparr>) bs),
      (if uint (previous_raw_data d) \<noteq> 256 * uint h + uint l
       then [real_of_int (256 * uint h + uint l) / 10] else [])
      @ snd (feed (d\<lparr>raw_data := 256 * ucast h + ucast l, first_byte := False, mode := False,
                   previous_raw_data := 256 * ucast h + ucast l\<rparr>) bs))"
proof -
  define d1 where "d1 = d\<lparr>raw_data := 256 * ucast h, first_byte := False\<rparr>"
  define d2 where "d2 = d\<lparr>raw_data := 256 * ucast h + ucast l, first_byte := False,
      mode := False, previous_raw_data := 256 * ucast h + ucast l\<rparr>"
  define out where "out = (if uint (previous_raw_data d) \<noteq> 256 * uint h + uint l
       then [real_of_int (256 * uint h + uint l) / 10] else [])"
  have v: "uint (256 * ucast h + ucast l :: 16 word) = 256 * uint h + uint l"
    using assms(3) by (simp add: uint_payload byte_le_1)
  have ne: "previous_raw_data d \<noteq> 256 * ucast h + ucast l
      \<longleftrightarrow> uint (previous_raw_data d) \<noteq> 256 * uint h + uint l"
    using v by (metis word_uint_eq_iff)
  have s1: "step h d = (d1, [])"
    using assms by (simp add: step_def frame_body_high_ok d1_def)
  have s2: "step l d1 = (d2, out)"
    using assms(1) v ne by (simp add: step_def frame_body_low d1_def d2_def out_def)
  show ?thesis
    using feed_Cons [OF s1, of "l # bs"] feed_Cons [OF s2, of bs]
    by (simp add: d2_def out_def)
qed

lemma feed_frame:
  assumes "mode d = False" and "lastch d \<noteq> 1" and "well_formed f"
  shows "feed d (frame_bytes f @ bs) =
     (fst (feed (d\<lparr>lastch := 0, raw_data := word_of_int (frame_value f), first_byte := False,
                   mode := False, previous_raw_data := word_of_int (frame_value f)\<rparr>) bs),
      emitted (uint (previous_raw_data d)) [frame_value f]
      @ snd (feed (d\<lparr>lastch := 0, raw_data := word_of_int (frame_value f), first_byte := False,
                   mode := False, previous_raw_data := word_of_int (frame_value f)\<rparr>) bs))"
proof -
  obtain h l where f: "f = (h, l)" by (cases f)
  have h: "h \<le> 1" using assms(3) f by (simp add: well_formed_def)
  define d1 where "d1 = d\<lparr>lastch := 0, mode := True, first_byte := True\<rparr>"
  define d2 where "d2 = d\<lparr>lastch := 0, raw_data := word_of_int (frame_value f),
      first_byte := False, mode := False, previous_raw_data := word_of_int (frame_value f)\<rparr>"
  have m: "feed d (1 # 1 # h # l # bs) = feed d1 (h # l # bs)"
    using feed_marker [OF assms(1,2), of "h # l # bs"] by (simp only: d1_def)
  have st: "d1\<lparr>raw_data := 256 * ucast h + ucast l, first_byte := False, mode := False,
      previous_raw_data := 256 * ucast h + ucast l\<rparr> = d2"
    by (simp add: d1_def d2_def f frame_value_def)
  have p: "feed d1 (h # l # bs) =
     (fst (feed d2 bs),
      (if uint (previous_raw_data d) \<noteq> 256 * uint h + uint l
       then [real_of_int (256 * uint h + uint l) / 10] else []) @ snd (feed d2 bs))"
    using feed_payload [of d1 h l bs] h unfolding st by (simp add: d1_def del: feed.simps)
  have "feed d (frame_bytes f @ bs) =
     (fst (feed d2 bs), emitted (uint (previous_raw_data d)) [frame_value f] @ snd (feed d2 bs))"
    using m p by (simp add: f frame_bytes_def frame_value_def del: feed.simps)
  then show ?thesis
    by (simp only: d2_def)
qed

lemma uint_frame_value:
  "well_formed f \<Longrightarrow> uint (word_of_int (frame_value f) :: 16 word) = frame_value f"
  by (cases f) (simp add: well_formed_def frame_value_def uint_payload byte_le_1)

lemma feed_frames:
  "list_all well_formed fs \<Longrightarrow> mode d = False \<Longrightarrow> lastch d \<noteq> 1 \<Longrightarrow>
     snd (feed d (concat (map frame_bytes fs))) =
       emitted (uint (previous_raw_data d)) (map frame_value fs)"
proof (induction fs arbitrary: d)
  case Nil
  then show ?case by simp
next
  case (Cons f fs)
  let ?d = "d\<lparr>lastch := 0, raw_data := word_of_int (frame_value f), first_byte := False,
      mode := False, previous_raw_data := word_of_int (frame_value f)\<rparr>"
  from Cons.prems have wf: "well_formed f" and rest: "list_all well_formed fs"
    by simp_all
  have ih: "snd (feed ?d (concat (map frame_bytes fs))) =
      emitted (frame_value f) (map frame_value fs)"
    using Cons.IH [OF rest, of ?d] uint_frame_value [OF wf] by simp
  have "snd (feed d (frame_bytes f @ concat (map frame_bytes fs))) =
      emitted (uint (previous_raw_data d)) [frame_value f]
      @ emitted (frame_value f) (map frame_value fs)"
    using feed_frame [OF Cons.prems(2,3) wf, of "concat (map frame_bytes fs)"] ih
    by (simp del: feed.simps emitted.simps)
  then show ?case by simp
qed

subsection \<open>Seeking through bytes that hold no marker\<close>

lemma has_marker_Cons:
  "xs \<noteq> [] \<Longrightarrow> has_marker (a # xs) = ((a = 1 \<and> hd xs = 1) \<or> has_marker xs)"
  by (cases xs) simp_all

lemma feed_gap_marker:
  "mode d = False \<Longrightarrow> \<not> has_marker (g @ [1]) \<Longrightarrow> lastch d \<noteq> 1 \<or> (g \<noteq> [] \<and> hd g \<noteq> 1) \<Longrightarrow>
     feed d (g @ 1 # 1 # bs) = feed (d\<lparr>lastch := 0, mode := True, first_byte := True\<rparr>) bs"
proof (induction g arbitrary: d)
  case Nil
  then show ?case
    using feed_marker [of d bs] by simp
next
  case (Cons a g)
  define d1 where "d1 = d\<lparr>lastch := uint a, mode := False, first_byte := True\<rparr>"
  have nm: "\<not> (a = 1 \<and> hd (g @ [1]) = 1)" and rest: "\<not> has_marker (g @ [1])"
    using Cons.prems(2) has_marker_Cons [of "g @ [1]" a] by simp_all
  have a: "a \<noteq> 1 \<or> lastch d \<noteq> 1"
    using Cons.prems(3) by auto
  have s: "step a d = (d1, [])"
    using step_seek_other [OF Cons.prems(1) a] by (simp add: d1_def)
  have look: "lastch d1 \<noteq> 1 \<or> (g \<noteq> [] \<and> hd g \<noteq> 1)"
  proof (cases "a = 1")
    case True
    with nm have "hd (g @ [1]) \<noteq> 1" by simp
    then show ?thesis by (cases g) simp_all
  next
    case False
    then show ?thesis by (simp add: d1_def byte_eq_1)
  qed
  have m1: "mode d1 = False" by (simp add: d1_def)
  have st: "d1\<lparr>lastch := 0, mode := True, first_byte := True\<rparr>
      = d\<lparr>lastch := 0, mode := True, first_byte := True\<rparr>"
    by (simp add: d1_def)
  have "feed d ((a # g) @ 1 # 1 # bs) = feed d1 (g @ 1 # 1 # bs)"
    using feed_Cons [OF s, of "g @ 1 # 1 # bs"] by (simp del: feed.simps)
  also have "\<dots> = feed (d1\<lparr>lastch := 0, mode := True, first_byte := True\<rparr>) bs"
    using Cons.IH [OF m1 rest look] .
  finally show ?case
    unfolding st .
qed

subsection \<open>Invariants of the reachable states\<close>

text \<open>Inside a frame the lookback byte is 0: recognising the marker resets it.\<close>

lemma step_lookback:
  "mode d = False \<or> lastch d = 0 \<Longrightarrow> mode (fst (step b d)) = False \<or> lastch (fst (step b d)) = 0"
  by (auto simp: step_def seek_body_def startcode_def frame_body_def Let_def)

lemma feed_lookback:
  "mode d = False \<or> lastch d = 0 \<Longrightarrow> mode (fst (feed d bs)) = False \<or> lastch (fst (feed d bs)) = 0"
proof (induction bs arbitrary: d)
  case Nil
  then show ?case by simp
next
  case (Cons b bs)
  have "feed d (b # bs) = (fst (feed (fst (step b d)) bs), snd (step b d) @ snd (feed (fst (step b d)) bs))"
    by (simp add: split_beta)
  then show ?case
    using Cons.IH [OF step_lookback [OF Cons.prems, of b]] by (simp del: feed.simps)
qed

lemma reached_lookback: "mode (fst (drain initial p)) \<Longrightarrow> lastch (fst (drain initial p)) = 0"
  using feed_lookback [of initial p] by (auto simp: drain_feed initial_def)

text \<open>
  When the low byte is awaited the high byte has passed the check, so \<open>raw_data\<close> is at
  most 256, and every published value comes from a raw value of at most 511.
\<close>

lemma step_bounded:
  assumes "mode d = False \<or> first_byte d \<or> uint (raw_data d) \<le> 256"
  shows "(mode (fst (step b d)) = False \<or> first_byte (fst (step b d))
        \<or> uint (raw_data (fst (step b d))) \<le> 256)
     \<and> (\<forall>v \<in> set (snd (step b d)). \<exists>r. 0 \<le> r \<and> r \<le> 511 \<and> v = real_of_int r / 10)"
proof (cases "mode d = False")
  case True
  then show ?thesis
    by (simp add: step_def seek_body_def split_beta)
next
  case inframe: False
  show ?thesis
  proof (cases "first_byte d")
    case True
    then show ?thesis
      using inframe by (simp add: step_def frame_body_def Let_def)
  next
    case False
    with inframe assms have small: "uint (raw_data d) \<le> 256"
      by simp
    have v: "uint (raw_data d + ucast b) = uint (raw_data d) + uint b"
      using uint_low [OF small] .
    have "0 \<le> uint (raw_data d + ucast b)" "uint (raw_data d + ucast b) \<le> 511"
      using small uint_byte_bounds [of b] by (simp_all add: v)
    then show ?thesis
      using inframe False by (auto simp: step_def frame_body_low)
  qed
qed

lemma feed_bounded:
  "mode d = False \<or> first_byte d \<or> uint (raw_data d) \<le> 256 \<Longrightarrow>
     \<forall>v \<in> set (snd (feed d bs)). \<exists>r. 0 \<le> r \<and> r \<le> 511 \<and> v = real_of_int r / 10"
proof (induction bs arbitrary: d)
  case Nil
  then show ?case by simp
next
  case (Cons b bs)
  have eq: "snd (feed d (b # bs)) = snd (step b d) @ snd (feed (fst (step b d)) bs)"
    by (simp add: split_beta)
  from step_bounded [OF Cons.prems, of b] Cons.IH [of "fst (step b d)"]
  show ?case
    unfolding eq by auto
qed

section \<open>The claims\<close>

subsection \<open>Well-formed frames and deduplication\<close>

text \<open>
  C1. Let the decoder be seeking with a lookback byte other than 1 (as in the initial
  state), and let it be fed any sequence of well-formed frames, each as marker, high
  byte at most 1 and low byte. The values published are exactly those \<open>emitted\<close>
  prescribes: one measurement \<open>value / 10\<close> for each frame whose value differs from the
  value remembered last (at first the stored \<open>previous_raw_data\<close>, afterwards the value
  of the frame before), and nothing for a frame that repeats the value before it.
\<close>

theorem frames_publish_on_change:
  assumes "list_all well_formed fs" and "mode d = False" and "lastch d \<noteq> 1"
  shows "snd (drain d (concat (map frame_bytes fs))) =
     emitted (uint (previous_raw_data d)) (map frame_value fs)"
  using feed_frames [OF assms] by (simp add: drain_feed)

theorem frames_publish_on_change_witness:
  "list_all well_formed [(0, 200), (0, 200), (1, 44), (0, 200)] \<and>
   mode initial = False \<and> lastch initial \<noteq> 1 \<and>
   snd (drain initial [1, 1, 0, 200, 1, 1, 0, 200, 1, 1, 1, 44, 1, 1, 0, 200]) = [20, 30, 20]"
  using frames_publish_on_change [of "[(0, 200), (0, 200), (1, 44), (0, 200)]" initial]
  by (simp add: well_formed_def frame_bytes_def frame_value_def initial_def)

subsection \<open>Assembling a frame\<close>

text \<open>
  C2. In a frame, with the high byte awaited, a poll that finds a high byte \<open>h \<le> 1\<close>
  and a low byte \<open>l\<close> reads both and leaves the rest of the queue. It assembles the raw
  value \<open>256 * h + l\<close> (which fits the 16-bit field), remembers it as the last value,
  returns to seeking, and publishes exactly \<open>(256 * h + l) / 10\<close> when that value
  differs from the value remembered before, and nothing otherwise. The witness is the
  payload \<open>[0, 200]\<close> after the marker \<open>[1, 1]\<close> from the initial state: raw value 200,
  measurement 20.
\<close>

theorem frame_assembly:
  assumes "mode d" and "first_byte d" and "h \<le> 1"
  shows "loop d (h # l # rx) =
     (d\<lparr>raw_data := 256 * ucast h + ucast l, first_byte := False, mode := False,
        previous_raw_data := 256 * ucast h + ucast l\<rparr>,
      rx,
      if uint (previous_raw_data d) \<noteq> 256 * uint h + uint l
      then [real_of_int (256 * uint h + uint l) / 10] else [])
    \<and> uint (256 * ucast h + ucast l :: 16 word) = 256 * uint h + uint l"
proof -
  have v: "uint (256 * ucast h + ucast l :: 16 word) = 256 * uint h + uint l"
    using assms(3) by (simp add: uint_payload byte_le_1)
  have ne: "previous_raw_data d \<noteq> 256 * ucast h + ucast l
      \<longleftrightarrow> uint (previous_raw_data d) \<noteq> 256 * uint h + uint l"
    using v by (metis word_uint_eq_iff)
  have s: "seek_loop d (h # l # rx) = (d, h # l # rx)"
    using assms(1) by simp
  have f: "frame_loop d (h # l # rx) =
     (d\<lparr>raw_data := 256 * ucast h + ucast l, first_byte := False, mode := False,
        previous_raw_data := 256 * ucast h + ucast l\<rparr>,
      rx,
      if previous_raw_data d \<noteq> 256 * ucast h + ucast l
      then [real_of_int (uint (256 * ucast h + ucast l :: 16 word)) / 10] else [])"
    using assms by (cases rx) (simp_all add: frame_body_high_ok frame_body_low)
  show ?thesis
    using s f v ne by (simp add: loop_def)
qed

theorem frame_assembly_witness:
  "loop initial [1, 1] = (initial\<lparr>mode := True\<rparr>, [], []) \<and>
   loop (initial\<lparr>mode := True\<rparr>) [0, 200] =
     (initial\<lparr>raw_data := 200, first_byte := False, previous_raw_data := 200\<rparr>, [], [20])"
  using frame_assembly [of "initial\<lparr>mode := True\<rparr>" 0 200 "[]"]
  by (simp add: initial_def loop_def seek_body_def startcode_def)

subsection \<open>Seeking the marker\<close>

text \<open>
  C4. While seeking, a poll that finds the single byte \<open>b\<close> recognises the marker when
  \<open>b\<close> is 1 and the lookback byte is 1: the decoder is then in a frame, the lookback
  is reset to 0 and the next byte is the high byte. For every other byte the lookback
  becomes \<open>b\<close> and the decoder keeps seeking. From the initial state the bytes \<open>[1, 1]\<close>
  put the decoder in a frame with the high byte awaited.
\<close>

theorem seeking_step:
  assumes "mode d = False"
  shows "loop d [b] =
     (if b = 1 \<and> lastch d = 1
      then (d\<lparr>lastch := 0, mode := True, first_byte := True\<rparr>, [], [])
      else (d\<lparr>lastch := uint b, mode := False, first_byte := True\<rparr>, [], []))
    \<and> loop initial [1, 1] =
      (\<lparr>lastch = 0, mode = True, first_byte = True, raw_data = 0,
         previous_raw_data = 0\<rparr>, [], [])"
  using assms
  by (simp add: loop_def seek_body_def startcode_def initial_def byte_eq_1)

theorem seeking_step_witness:
  "mode initial = False \<and>
   loop initial [1] = (initial\<lparr>lastch := 1\<rparr>, [], []) \<and>
   loop (initial\<lparr>lastch := 1\<rparr>) [1] = (initial\<lparr>mode := True\<rparr>, [], []) \<and>
   loop (initial\<lparr>lastch := 1\<rparr>) [7] = (initial\<lparr>lastch := 7\<rparr>, [], [])"
  using seeking_step [of initial 1] seeking_step [of "initial\<lparr>lastch := 1\<rparr>" 1]
    seeking_step [of "initial\<lparr>lastch := 1\<rparr>" 7]
  by (simp add: initial_def)

subsection \<open>Whole streams from the initial state\<close>

text \<open>
  C5. From the initial state the bytes \<open>[9, 1, 1, 0, 150, 1, 1, 0, 150, 1, 1, 0, 151]\<close>
  publish exactly two values, 15 and then 15.1; and the two frames \<open>[1, 1, 0, 200]\<close>,
  \<open>[1, 1, 0, 210]\<close> publish 20 and then 21.
\<close>

theorem full_round_trip:
  "drain initial [9, 1, 1, 0, 150, 1, 1, 0, 150, 1, 1, 0, 151] =
     (\<lparr>lastch = 0, mode = False, first_byte = False, raw_data = 151,
        previous_raw_data = 151\<rparr>, [15, 151 / 10])
   \<and> drain initial [1, 1, 0, 200, 1, 1, 0, 210] =
     (\<lparr>lastch = 0, mode = False, first_byte = False, raw_data = 210,
        previous_raw_data = 210\<rparr>, [20, 21])"
  by (simp add: loop_def initial_def seek_body_def startcode_def frame_body_def)

text \<open>
  C9. The value remembered initially is 0, so a first frame of value 0 is not published:
  from the initial state the bytes \<open>[1, 1, 0, 0]\<close> publish nothing.
\<close>

theorem first_zero_frame_not_published:
  "previous_raw_data initial = 0 \<and>
   drain initial [1, 1, 0, 0] =
     (\<lparr>lastch = 0, mode = False, first_byte = False, raw_data = 0,
        previous_raw_data = 0\<rparr>, [])"
  by (simp add: loop_def initial_def seek_body_def startcode_def frame_body_def)

subsection \<open>The two payload bytes\<close>

text \<open>
  C6. In a frame, with the high byte awaited, a poll that finds the high byte \<open>h \<le> 1\<close>
  accepts it: nothing is published and the decoder stays in the frame with
  \<open>raw_data = 256 * h\<close>, the low byte awaited. The next poll assembles the byte \<open>l\<close> it
  finds as the low byte, returns to seeking and publishes when the value differs from the
  one remembered. The same holds of the two loop bodies. The witness takes \<open>h = 1\<close>: the
  raw value 256 after the high byte is no framing error.
\<close>

theorem high_byte_at_most_one_accepted:
  assumes "mode d" and "first_byte d" and "h \<le> 1"
  shows "loop d [h] = (d\<lparr>raw_data := 256 * ucast h, first_byte := False\<rparr>, [], [])
    \<and> mode (d\<lparr>raw_data := 256 * ucast h, first_byte := False\<rparr>) = True
    \<and> uint (256 * ucast h :: 16 word) = 256 * uint h
    \<and> loop (d\<lparr>raw_data := 256 * ucast h, first_byte := False\<rparr>) (l # rx) =
       (d\<lparr>raw_data := 256 * ucast h + ucast l, first_byte := False, mode := False,
          previous_raw_data := 256 * ucast h + ucast l\<rparr>,
        rx,
        if uint (previous_raw_data d) \<noteq> 256 * uint h + uint l
        then [real_of_int (256 * uint h + uint l) / 10] else [])
    \<and> frame_body h d = (d\<lparr>raw_data := 256 * ucast h, first_byte := False\<rparr>, [])
    \<and> frame_body l (d\<lparr>raw_data := 256 * ucast h, first_byte := False\<rparr>) =
       (d\<lparr>raw_data := 256 * ucast h + ucast l, first_byte := False, mode := False,
          previous_raw_data := 256 * ucast h + ucast l\<rparr>,
        if uint (previous_raw_data d) \<noteq> 256 * uint h + uint l
        then [real_of_int (256 * uint h + uint l) / 10] else [])"
proof -
  define d1 where "d1 = d\<lparr>raw_data := 256 * ucast h, first_byte := False\<rparr>"
  define d2 where "d2 = d\<lparr>raw_data := 256 * ucast h + ucast l, first_byte := False,
      mode := False, previous_raw_data := 256 * ucast h + ucast l\<rparr>"
  define out where "out = (if uint (previous_raw_data d) \<noteq> 256 * uint h + uint l
        then [real_of_int (256 * uint h + uint l) / 10] else [])"
  have v: "uint (256 * ucast h + ucast l :: 16 word) = 256 * uint h + uint l"
    using assms(3) by (simp add: uint_payload byte_le_1)
  have ne: "previous_raw_data d \<noteq> 256 * ucast h + ucast l
      \<longleftrightarrow> uint (previous_raw_data d) \<noteq> 256 * uint h + uint l"
    using v by (metis word_uint_eq_iff)
  have hi: "frame_body h d = (d1, [])"
    using assms by (simp add: frame_body_high_ok d1_def)
  have lo: "frame_body l d1 = (d2, out)"
    using v ne by (simp add: frame_body_low d1_def d2_def out_def)
  have m1: "mode d1 = True"
    using assms(1) by (simp add: d1_def)
  have m2: "mode d2 = False"
    by (simp add: d2_def)
  have p1: "loop d [h] = (d1, [], [])"
    using assms(1) hi by (simp add: loop_def)
  have p2: "loop d1 (l # rx) = (d2, rx, out)"
    using m1 m2 lo by (cases rx) (simp_all add: loop_def)
  show ?thesis
    using p1 p2 m1 hi lo by (simp only: d1_def d2_def out_def uint_high simp_thms)
qed

theorem high_byte_at_most_one_accepted_witness:
  "loop (initial\<lparr>mode := True\<rparr>) [1] =
     (initial\<lparr>mode := True, raw_data := 256, first_byte := False\<rparr>, [], []) \<and>
   loop (initial\<lparr>mode := True, raw_data := 256, first_byte := False\<rparr>) [44, 9] =
     (initial\<lparr>raw_data := 300, first_byte := False, previous_raw_data := 300\<rparr>, [9], [30])"
  using high_byte_at_most_one_accepted [of "initial\<lparr>mode := True\<rparr>" 1 44 "[9]"]
  by (simp add: initial_def)

text \<open>
  C7. In a frame, with the low byte awaited, a poll reads exactly the low byte \<open>l\<close>.
  Afterwards the decoder is seeking and \<open>previous_raw_data\<close> equals the raw value just
  assembled, \<open>raw_data + l\<close>, whether or not a value was published.
\<close>

theorem low_byte_completes_frame:
  assumes "mode d" and "\<not> first_byte d"
  shows "loop d (l # rx) =
     (d\<lparr>raw_data := raw_data d + ucast l, mode := False,
        previous_raw_data := raw_data d + ucast l\<rparr>,
      rx,
      if previous_raw_data d \<noteq> raw_data d + ucast l
      then [real_of_int (uint (raw_data d + ucast l)) / 10] else [])"
  using assms by (cases rx) (simp_all add: loop_def frame_body_low)

theorem low_byte_completes_frame_witness:
  "loop (initial\<lparr>mode := True, first_byte := False, raw_data := 256\<rparr>) [44, 9] =
     (initial\<lparr>first_byte := False, raw_data := 300, previous_raw_data := 300\<rparr>, [9], [30]) \<and>
   loop (initial\<lparr>mode := True, first_byte := False\<rparr>) [0, 9] =
     (initial\<lparr>first_byte := False\<rparr>, [9], [])"
  using low_byte_completes_frame
      [of "initial\<lparr>mode := True, first_byte := False, raw_data := 256\<rparr>" 44 "[9]"]
    low_byte_completes_frame [of "initial\<lparr>mode := True, first_byte := False\<rparr>" 0 "[9]"]
  by (simp add: initial_def)

subsection \<open>Recovery from a misaligned frame\<close>

text \<open>
  C3. Let the decoder, in a state reached from the initial one, be in a frame with the
  high byte awaited, and let the byte read be \<open>h > 1\<close>, so that \<open>raw_data > 256\<close>. The
  poll then stops after that byte: the frame is abandoned, the decoder is seeking again
  and nothing is published. Afterwards it locks onto the first place where two
  neighbouring bytes are 1: when the bytes \<open>g\<close> that follow the rejected byte hold no
  two neighbouring 1s and do not end in 1, the decoder is in a frame with the high byte
  awaited right after the \<open>[1, 1]\<close> behind them and has published nothing on the way,
  and a payload \<open>h' \<le> 1\<close>, \<open>l'\<close> behind that marker is assembled and published as for
  any frame. The condition on \<open>g\<close> is needed, as the stream after this theorem shows.
\<close>

theorem misaligned_high_byte_recovery:
  assumes "d = fst (drain initial p)" and "mode d" and "first_byte d"
    and "1 < h" and "\<not> has_marker (g @ [1])" and "h' \<le> 1"
  shows "loop d (h # rx) =
       (d\<lparr>raw_data := 256 * ucast h, first_byte := False, mode := False\<rparr>, rx, [])
    \<and> drain d (h # g @ [1, 1]) =
       (d\<lparr>lastch := 0, mode := True, first_byte := True, raw_data := 256 * ucast h\<rparr>, [])
    \<and> drain d (h # g @ [1, 1, h', l']) =
       (d\<lparr>lastch := 0, mode := False, first_byte := False,
          raw_data := 256 * ucast h' + ucast l',
          previous_raw_data := 256 * ucast h' + ucast l'\<rparr>,
        if uint (previous_raw_data d) \<noteq> 256 * uint h' + uint l'
        then [real_of_int (256 * uint h' + uint l') / 10] else [])"
proof -
  define d1 where "d1 = d\<lparr>raw_data := 256 * ucast h, first_byte := False, mode := False\<rparr>"
  define d2 where "d2 = d\<lparr>lastch := 0, mode := True, first_byte := True,
      raw_data := 256 * ucast h\<rparr>"
  define d3 where "d3 = d\<lparr>lastch := 0, mode := False, first_byte := False,
      raw_data := 256 * ucast h' + ucast l', previous_raw_data := 256 * ucast h' + ucast l'\<rparr>"
  define out where "out = (if uint (previous_raw_data d) \<noteq> 256 * uint h' + uint l'
        then [real_of_int (256 * uint h' + uint l') / 10] else [])"
  have l0: "lastch d = 0"
    using reached_lookback [of p] assms(1,2) by simp
  have fb: "frame_body h d = (d1, [])"
    using frame_body_high_bad [OF assms(3,4)] by (simp add: d1_def)
  have abandon: "loop d (h # rx) = (d1, rx, [])"
    using assms(2) fb by (cases rx) (simp_all add: loop_def d1_def)
  have s: "step h d = (d1, [])"
    using assms(2) fb by (simp add: step_def)
  have m1: "mode d1 = False" and l1: "lastch d1 \<noteq> 1 \<or> (g \<noteq> [] \<and> hd g \<noteq> 1)"
    using l0 by (simp_all add: d1_def)
  have st: "d1\<lparr>lastch := 0, mode := True, first_byte := True\<rparr> = d2"
    by (simp add: d1_def d2_def)
  have gap: "feed d1 (g @ 1 # 1 # bs) = feed d2 bs" for bs
    using feed_gap_marker [OF m1 assms(5) l1, of bs] unfolding st .
  have sync: "feed d (h # g @ [1, 1]) = (d2, [])"
    using feed_Cons [OF s, of "g @ [1, 1]"] gap [of "[]"] by (simp del: feed.simps(2))
  have st3: "d2\<lparr>raw_data := 256 * ucast h' + ucast l', first_byte := False, mode := False,
      previous_raw_data := 256 * ucast h' + ucast l'\<rparr> = d3"
    by (simp add: d2_def d3_def)
  have "feed d2 [h', l'] = (d3, out)"
    using feed_payload [of d2 h' l' "[]"] assms(6) unfolding st3
    by (simp add: d2_def out_def del: feed.simps(2))
  then have frame: "feed d (h # g @ [1, 1, h', l']) = (d3, out)"
    using feed_Cons [OF s, of "g @ [1, 1, h', l']"] gap [of "[h', l']"]
    by (simp del: feed.simps(2))
  show ?thesis
    using abandon sync frame
    by (simp only: drain_feed d1_def d2_def d3_def out_def simp_thms)
qed

theorem misaligned_high_byte_recovery_witness:
  "fst (drain initial [1, 1]) = initial\<lparr>mode := True\<rparr> \<and>
   \<not> has_marker ([7, 1, 3] @ [1]) \<and>
   loop (initial\<lparr>mode := True\<rparr>) [5, 7, 1, 3, 1, 1, 0, 200] =
     (initial\<lparr>raw_data := 1280, first_byte := False\<rparr>, [7, 1, 3, 1, 1, 0, 200], []) \<and>
   drain (initial\<lparr>mode := True\<rparr>) [5, 7, 1, 3, 1, 1] =
     (initial\<lparr>mode := True, raw_data := 1280\<rparr>, []) \<and>
   drain (initial\<lparr>mode := True\<rparr>) [5, 7, 1, 3, 1, 1, 0, 200] =
     (initial\<lparr>raw_data := 200, first_byte := False, previous_raw_data := 200\<rparr>, [20])"
  using misaligned_high_byte_recovery
      [of "initial\<lparr>mode := True\<rparr>" "[1, 1]" 5 "[7, 1, 3]" 0 "[7, 1, 3, 1, 1, 0, 200]" 200]
  by (simp add: initial_def loop_def seek_body_def startcode_def frame_body_def)

text \<open>
  C3, as first worded. Without the condition on the bytes in between the decoder need
  not find the frame that follows. In \<open>[1, 1, 5, 1, 1, 1, 0, 200]\<close> the high byte 5 is rejected with nothing
  published, and the frame \<open>[1, 1, 0, 200]\<close>, which alone publishes 20, follows a
  single stray 1. The decoder takes the stray 1 and the first marker byte for the marker,
  the second marker byte for the high byte and the 0 for the low byte: it publishes
  25.6 and never decodes the frame.
\<close>

theorem misaligned_high_byte_recovery_counterexample:
  "loop (fst (drain initial [1, 1])) [5, 1, 1, 1, 0, 200] =
     (\<lparr>lastch = 0, mode = False, first_byte = False, raw_data = 1280,
        previous_raw_data = 0\<rparr>, [1, 1, 1, 0, 200], [])
   \<and> drain initial [1, 1, 0, 200] =
     (\<lparr>lastch = 0, mode = False, first_byte = False, raw_data = 200,
        previous_raw_data = 200\<rparr>, [20])
   \<and> drain initial [1, 1, 5, 1, 1, 1, 0, 200] =
     (\<lparr>lastch = 200, mode = False, first_byte = True, raw_data = 256,
        previous_raw_data = 256\<rparr>, [128 / 5])"
  by (simp add: loop_def initial_def seek_body_def startcode_def frame_body_def)

subsection \<open>The range of the published values\<close>

text \<open>
  C10. For every byte sequence processed from the initial state, every published value
  is \<open>r / 10\<close> for an integer \<open>r\<close> with \<open>0 \<le> r \<le> 511\<close>, so none exceeds 51.1.
\<close>

theorem published_values_bounded:
  "\<forall>v \<in> set (snd (drain initial bs)).
     (\<exists>r. 0 \<le> r \<and> r \<le> 511 \<and> v = real_of_int r / 10) \<and> v \<le> 511 / 10"
proof
  fix v assume "v \<in> set (snd (drain initial bs))"
  then obtain r where r: "0 \<le> r" "r \<le> 511" "v = real_of_int r / 10"
    using feed_bounded [of initial bs] by (auto simp: drain_feed initial_def)
  then have "v \<le> 511 / 10" by simp
  with r show "(\<exists>r. 0 \<le> r \<and> r \<le> 511 \<and> v = real_of_int r / 10) \<and> v \<le> 511 / 10"
    by blast
qed

theorem published_values_bounded_witness:
  "snd (drain initial [1, 1, 1, 255]) = [511 / 10] \<and>
   (511 / 10 :: real) \<in> set (snd (drain initial [1, 1, 1, 255])) \<and>
   (\<exists>r. 0 \<le> r \<and> r \<le> 511 \<and> (511 / 10 :: real) = real_of_int r / 10)"
proof -
  have e: "snd (drain initial [1, 1, 1, 255]) = [511 / 10]"
    by (simp add: initial_def loop_def seek_body_def startcode_def frame_body_def)
  then have m: "(511 / 10 :: real) \<in> set (snd (drain initial [1, 1, 1, 255]))"
    by simp
  from published_values_bounded [of "[1, 1, 1, 255]"] m e show ?thesis
    by blast
qed

subsection \<open>Polling with no data\<close>

text \<open>
  C8. When no byte is available, a call of \<^verbatim>\<open>loop\<close> changes nothing in the decoder
  state and publishes nothing, whatever the state is.
\<close>

theorem loop_no_data: "loop d [] = (d, [], [])"
  by (simp add: loop_def)

end
